theory Spec2Isabelle
  imports Complex_Main "HOL-Library.Sublist" "HOL-Library.Multiset"
begin

section \<open>Python strings\<close>

text \<open>
  A Python \<open>str\<close> is a sequence of Unicode code points, and \<open>len\<close>, slicing and
  \<open>textwrap\<close> count code points. A string is therefore a list of code points; \<open>S\<close>
  turns an ASCII literal into one. The substring test \<open>t in s\<close> is \<open>sublist t s\<close>.
\<close>

type_synonym pystr = "nat list"

definition S :: "string \<Rightarrow> pystr" where
  "S cs = map of_char cs"

text \<open>The em dash U+2014, the placeholder of \<open>facts_to_string\<close>.\<close>

definition EM_DASH :: pystr where
  "EM_DASH = [8212]"

text \<open>\<open>str(n)\<close> for an integer, as an f-string field renders it.\<close>

fun digits :: "nat \<Rightarrow> pystr" where
  "digits n = (if n < 10 then [48 + n] else digits (n div 10) @ [48 + n mod 10])"

declare digits.simps [simp del]

definition str_int :: "int \<Rightarrow> pystr" where
  "str_int i = (if i < 0 then 45 # digits (nat (- i)) else digits (nat i))"

text \<open>\<open>sep.join(xs)\<close>.\<close>

fun join :: "pystr \<Rightarrow> pystr list \<Rightarrow> pystr" where
  "join sep [] = []"
| "join sep [x] = x"
| "join sep (x # y # ys) = x @ sep @ join sep (y # ys)"

datatype error = ValueError | IndexError

definition bind_e :: "error + 'a \<Rightarrow> ('a \<Rightarrow> error + 'b) \<Rightarrow> error + 'b" where
  "bind_e m f = (case m of Inl e \<Rightarrow> Inl e | Inr x \<Rightarrow> f x)"

section \<open>The standard library's \<open>textwrap.fill\<close>\<close>

text \<open>
  \<open>textwrap.fill(text, width=w)\<close> with every other option at its default
  (\<open>expand_tabs\<close>, \<open>replace_whitespace\<close>, \<open>drop_whitespace\<close>, \<open>break_long_words\<close>,
  \<open>break_on_hyphens\<close> on; \<open>tabsize\<close> 8; no indents, no \<open>max_lines\<close>), following
  CPython 3.11's \<open>textwrap.py\<close> method by method.

  \<open>is_whitespace\<close> is membership in \<open>textwrap._whitespace\<close> (tab, LF, VT, FF, CR, space);
  \<open>isspace\<close> is \<open>str.isspace\<close> on one character, which decides \<open>chunk.strip() == ''\<close>.
\<close>

definition is_whitespace :: "nat \<Rightarrow> bool" where
  "is_whitespace c \<longleftrightarrow> c = 32 \<or> (9 \<le> c \<and> c \<le> 13)"

definition isspace :: "nat \<Rightarrow> bool" where
  "isspace c \<longleftrightarrow> c = 32 \<or> (9 \<le> c \<and> c \<le> 13) \<or> (28 \<le> c \<and> c \<le> 31) \<or> c = 133 \<or> c = 160
     \<or> c = 5760 \<or> (8192 \<le> c \<and> c \<le> 8202) \<or> c = 8232 \<or> c = 8233 \<or> c = 8239 \<or> c = 8287
     \<or> c = 12288"

definition all_space :: "pystr \<Rightarrow> bool" where
  "all_space s \<longleftrightarrow> (\<forall>c \<in> set s. isspace c)"

text \<open>\<open>str.expandtabs(8)\<close>, started at column \<open>col\<close>.\<close>

fun expandtabs :: "nat \<Rightarrow> pystr \<Rightarrow> pystr" where
  "expandtabs col [] = []"
| "expandtabs col (c # cs) =
     (if c = 9 then replicate (8 - col mod 8) 32 @ expandtabs (col + (8 - col mod 8)) cs
      else c # expandtabs (if c = 10 \<or> c = 13 then 0 else col + 1) cs)"

definition munge_whitespace :: "pystr \<Rightarrow> pystr" where
  "munge_whitespace text = map (\<lambda>c. if is_whitespace c then 32 else c) (expandtabs 0 text)"

text \<open>
  The character classes of \<open>wordsep_re\<close>: \<open>\d\<close>, \<open>[^\d\W]\<close> (a letter or underscore) and
  \<open>\W\<close>. On ASCII they are fixed; beyond ASCII the regex engine reads the Unicode
  database, which is no part of this repository and is taken as the parameter \<open>ucd\<close>.
\<close>

datatype cclass = Decimal | Letter | NonWord

definition char_class :: "(nat \<Rightarrow> cclass) \<Rightarrow> nat \<Rightarrow> cclass" where
  "char_class ucd c =
     (if c < 128 then
        (if 48 \<le> c \<and> c \<le> 57 then Decimal
         else if (65 \<le> c \<and> c \<le> 90) \<or> (97 \<le> c \<and> c \<le> 122) \<or> c = 95 then Letter
         else NonWord)
      else ucd c)"

definition is_letter :: "(nat \<Rightarrow> cclass) \<Rightarrow> nat \<Rightarrow> bool" where
  "is_letter ucd c \<longleftrightarrow> char_class ucd c = Letter"

definition is_word :: "(nat \<Rightarrow> cclass) \<Rightarrow> nat \<Rightarrow> bool" where
  "is_word ucd c \<longleftrightarrow> char_class ucd c \<noteq> NonWord"

text \<open>\<open>word_punct = [\w!"'&.,?]\<close>.\<close>

definition is_word_punct :: "(nat \<Rightarrow> cclass) \<Rightarrow> nat \<Rightarrow> bool" where
  "is_word_punct ucd c \<longleftrightarrow>
     is_word ucd c \<or> c = 33 \<or> c = 34 \<or> c = 39 \<or> c = 38 \<or> c = 46 \<or> c = 44 \<or> c = 63"

text \<open>
  Both the lookahead \<open>(?= lt -? lt)\<close> (read forwards from the hyphen) and the lookbehinds
  \<open>(?<= lt{2}-)\<close>, \<open>(?<= lt-lt-)\<close> (read backwards from the hyphen) ask for a letter,
  an optional hyphen, and a letter.
\<close>

definition letter_pair :: "(nat \<Rightarrow> cclass) \<Rightarrow> pystr \<Rightarrow> bool" where
  "letter_pair ucd xs =
     (case xs of
        a # b # r \<Rightarrow> is_letter ucd a \<and>
           (is_letter ucd b \<or> (b = 45 \<and> (case r of c # _ \<Rightarrow> is_letter ucd c | [] \<Rightarrow> False)))
      | _ \<Rightarrow> False)"

text \<open>\<open>-{2,}\w\<close> at the head of \<open>cs\<close>.\<close>

definition dash_ahead :: "(nat \<Rightarrow> cclass) \<Rightarrow> pystr \<Rightarrow> bool" where
  "dash_ahead ucd cs \<longleftrightarrow>
     2 \<le> length (takeWhile (\<lambda>c. c = 45) cs) \<and>
     (case dropWhile (\<lambda>c. c = 45) cs of d # _ \<Rightarrow> is_word ucd d | [] \<Rightarrow> False)"

text \<open>
  The third alternative of \<open>wordsep_re\<close>, \<open>[^ws]+? (?: hyphenated | end of word | em-dash)\<close>:
  \<open>seen\<close> is the text before the current position, last character first, and holds at
  least the first character of the word; the result is how many more characters the
  lazy match takes.
\<close>

fun scan_word :: "(nat \<Rightarrow> cclass) \<Rightarrow> pystr \<Rightarrow> pystr \<Rightarrow> nat" where
  "scan_word ucd seen [] = 0"
| "scan_word ucd seen (c # cs) =
     (if c = 45 \<and> letter_pair ucd seen \<and> letter_pair ucd cs then 1
      else if is_whitespace c then 0
      else if (case seen of p # _ \<Rightarrow> is_word_punct ucd p | [] \<Rightarrow> False) \<and> dash_ahead ucd (c # cs)
        then 0
      else Suc (scan_word ucd (c # seen) cs))"

text \<open>
  The length, less one, of the match of \<open>wordsep_re\<close> that starts at \<open>c # cs\<close>:
  a run of whitespace, or an em-dash between words, or a word.
\<close>

definition chunk_more :: "(nat \<Rightarrow> cclass) \<Rightarrow> pystr \<Rightarrow> nat \<Rightarrow> pystr \<Rightarrow> nat" where
  "chunk_more ucd prev c cs =
     (if is_whitespace c then length (takeWhile is_whitespace cs)
      else if (case prev of p # _ \<Rightarrow> is_word_punct ucd p | [] \<Rightarrow> False) \<and> dash_ahead ucd (c # cs)
        then length (takeWhile (\<lambda>c. c = 45) cs)
      else scan_word ucd (c # prev) cs)"

text \<open>\<open>_split\<close>: the successive matches of \<open>wordsep_re\<close>; they cover the text.\<close>

fun split_from :: "(nat \<Rightarrow> cclass) \<Rightarrow> pystr \<Rightarrow> pystr \<Rightarrow> pystr list" where
  "split_from ucd prev [] = []"
| "split_from ucd prev (c # cs) =
     (c # take (chunk_more ucd prev c cs) cs) #
       split_from ucd (rev (take (chunk_more ucd prev c cs) cs) @ c # prev)
         (drop (chunk_more ucd prev c cs) cs)"

definition split_chunks :: "(nat \<Rightarrow> cclass) \<Rightarrow> pystr \<Rightarrow> pystr list" where
  "split_chunks ucd text = split_from ucd [] (munge_whitespace text)"

text \<open>The inner loop of \<open>_wrap_chunks\<close>: chunks move onto the line while they fit.\<close>

fun take_fitting :: "nat \<Rightarrow> nat \<Rightarrow> pystr list \<Rightarrow> pystr list \<Rightarrow> pystr list \<times> nat \<times> pystr list" where
  "take_fitting width cur_len cur_line [] = (cur_line, cur_len, [])"
| "take_fitting width cur_len cur_line (c # cs) =
     (if cur_len + length c \<le> width
      then take_fitting width (cur_len + length c) (cur_line @ [c]) cs
      else (cur_line, cur_len, c # cs))"

text \<open>\<open>s.rfind('-', 0, e)\<close>.\<close>

definition rfind_hyphen :: "pystr \<Rightarrow> nat \<Rightarrow> int" where
  "rfind_hyphen s e =
     (if 45 \<in> set (take e s)
      then int (length (take e s)) - 1 - int (length (takeWhile (\<lambda>x. x \<noteq> 45) (rev (take e s))))
      else - 1)"

text \<open>
  \<open>_handle_long_word\<close>, on the next chunk and the chunks after it. \<open>cur_len \<le> width\<close>
  holds wherever it is called, so \<open>width - cur_len\<close> is not truncated.
\<close>

definition handle_long_word ::
  "pystr \<Rightarrow> pystr list \<Rightarrow> pystr list \<Rightarrow> nat \<Rightarrow> nat \<Rightarrow> pystr list \<times> pystr list" where
  "handle_long_word chunk rest cur_line cur_len width =
     (let space_left = (if width < 1 then 1 else width - cur_len);
          hyphen = rfind_hyphen chunk space_left;
          end = (if length chunk > space_left \<and> hyphen > 0 \<and>
                    (\<exists>c \<in> set (take (nat hyphen) chunk). c \<noteq> 45)
                 then nat hyphen + 1 else space_left)
      in (cur_line @ [take end chunk], drop end chunk # rest))"

text \<open>
  One pass of the outer loop of \<open>_wrap_chunks\<close> over a non-empty chunk list: the chunks
  of the line built, and the chunks left. \<open>started\<close> says that \<open>lines\<close> is non-empty.
\<close>

definition wrap_line :: "nat \<Rightarrow> bool \<Rightarrow> pystr list \<Rightarrow> pystr list \<times> pystr list" where
  "wrap_line width started chunks =
     (let chunks1 = (if all_space (hd chunks) \<and> started then tl chunks else chunks);
          (cur_line, cur_len, chunks2) = take_fitting width 0 [] chunks1;
          (cur_line2, chunks3) =
             (case chunks2 of
                [] \<Rightarrow> (cur_line, chunks2)
              | chunk # rest \<Rightarrow>
                  if length chunk > width
                  then handle_long_word chunk rest cur_line cur_len width
                  else (cur_line, chunks2));
          cur_line3 = (if cur_line2 \<noteq> [] \<and> all_space (last cur_line2)
                       then butlast cur_line2 else cur_line2)
      in (cur_line3, chunks3))"

definition chunks_size :: "pystr list \<Rightarrow> nat" where
  "chunks_size chunks = sum_list (map length chunks) + length chunks"

lemma take_fitting_props:
  "take_fitting w n l cs = (l', n', rest) \<Longrightarrow>
     \<exists>taken. l' = l @ taken \<and> cs = taken @ rest \<and> n' = n + sum_list (map length taken) \<and>
       (\<forall>c r. rest = c # r \<longrightarrow> w < n' + length c)"
proof (induction cs arbitrary: n l)
  case Nil
  then show ?case by simp
next
  case (Cons c cs)
  show ?case
  proof (cases "n + length c \<le> w")
    case True
    with Cons.prems have "take_fitting w (n + length c) (l @ [c]) cs = (l', n', rest)" by simp
    from Cons.IH [OF this] obtain taken where
      t: "l' = (l @ [c]) @ taken" "cs = taken @ rest" "n' = n + length c + sum_list (map length taken)"
         "\<forall>c r. rest = c # r \<longrightarrow> w < n' + length c" by blast
    show ?thesis
      by (rule exI [of _ "c # taken"]) (use t in simp)
  next
    case False
    with Cons.prems show ?thesis by (intro exI [of _ "[]"]) auto
  qed
qed

lemma chunks_size_append: "chunks_size (a @ b) = chunks_size a + chunks_size b"
  by (simp add: chunks_size_def)

lemma handle_long_word_props:
  "handle_long_word chunk rest cur_line cur_len width = (l2, c3) \<Longrightarrow>
     \<exists>e. l2 = cur_line @ [take e chunk] \<and> c3 = drop e chunk # rest \<and>
       (cur_len = 0 \<longrightarrow> 1 \<le> e)"
  by (auto simp: handle_long_word_def Let_def split: if_splits)

lemma chunks_size_Cons: "chunks_size (c # cs) = Suc (length c + chunks_size cs)"
  by (simp add: chunks_size_def)

lemma chunks_size_Nil: "chunks_size [] = 0"
  by (simp add: chunks_size_def)

lemma wrap_line_decomp:
  assumes ne: "chunks \<noteq> []" and wl: "wrap_line width started chunks = (line, rest)"
  shows "\<exists>dropped cut. all_space dropped \<and> all_space cut
           \<and> concat chunks = dropped @ concat line @ cut @ concat rest
           \<and> chunks_size rest < chunks_size chunks"
proof -
  define chunks1 where "chunks1 = (if all_space (hd chunks) \<and> started then tl chunks else chunks)"
  obtain cur_line cur_len chunks2 where tf: "take_fitting width 0 [] chunks1 = (cur_line, cur_len, chunks2)"
    by (metis prod_cases3)
  define step where "step = (case chunks2 of
                [] \<Rightarrow> (cur_line, chunks2)
              | chunk # rest \<Rightarrow>
                  if length chunk > width
                  then handle_long_word chunk rest cur_line cur_len width
                  else (cur_line, chunks2))"
  obtain cur_line2 chunks3 where st: "step = (cur_line2, chunks3)"
    by (metis surj_pair)
  have "wrap_line width started chunks =
      (if cur_line2 \<noteq> [] \<and> all_space (last cur_line2) then butlast cur_line2 else cur_line2, chunks3)"
    unfolding wrap_line_def Let_def chunks1_def [symmetric] tf prod.case step_def [symmetric] st
    by simp
  with wl have line: "line = (if cur_line2 \<noteq> [] \<and> all_space (last cur_line2) then butlast cur_line2 else cur_line2)"
    and rest: "rest = chunks3"
    by simp_all
  from take_fitting_props [OF tf] have
    c1: "chunks1 = cur_line @ chunks2" and cl: "cur_len = sum_list (map length cur_line)"
    and full: "\<forall>c r. chunks2 = c # r \<longrightarrow> width < cur_len + length c"
    by auto
  obtain dropped where d: "all_space dropped" "concat chunks = dropped @ concat chunks1"
    and dsz: "chunks_size chunks1 \<le> chunks_size chunks"
        "chunks1 \<noteq> chunks \<Longrightarrow> chunks_size chunks1 < chunks_size chunks"
  proof (cases "all_space (hd chunks) \<and> started")
    case True
    with ne have "concat chunks = hd chunks @ concat chunks1"
      by (cases chunks) (simp_all add: chunks1_def)
    moreover from ne True have "chunks_size chunks1 < chunks_size chunks"
      by (cases chunks) (simp_all add: chunks1_def chunks_size_Cons)
    ultimately show ?thesis using True that [of "hd chunks"] by simp
  next
    case False
    then have "chunks1 = chunks" unfolding chunks1_def by auto
    then show ?thesis using that [of "[]"] by (simp add: all_space_def)
  qed
  have s2: "concat chunks1 = concat cur_line2 @ concat chunks3"
    and sz3: "chunks_size chunks3 \<le> chunks_size chunks2"
        "cur_line = [] \<Longrightarrow> chunks2 \<noteq> [] \<Longrightarrow> chunks_size chunks3 < chunks_size chunks2"
  proof -
    show "concat chunks1 = concat cur_line2 @ concat chunks3"
    proof (cases chunks2)
      case Nil
      with st c1 show ?thesis by (simp add: step_def)
    next
      case (Cons c r)
      show ?thesis
      proof (cases "length c > width")
        case True
        with Cons st have "handle_long_word c r cur_line cur_len width = (cur_line2, chunks3)"
          by (simp add: step_def)
        from handle_long_word_props [OF this] Cons c1 show ?thesis by auto
      next
        case False
        with Cons st c1 show ?thesis by (simp add: step_def)
      qed
    qed
    show "chunks_size chunks3 \<le> chunks_size chunks2"
    proof (cases chunks2)
      case Nil
      with st show ?thesis by (simp add: step_def)
    next
      case (Cons c r)
      show ?thesis
      proof (cases "length c > width")
        case True
        with Cons st have "handle_long_word c r cur_line cur_len width = (cur_line2, chunks3)"
          by (simp add: step_def)
        from handle_long_word_props [OF this] Cons show ?thesis by (auto simp: chunks_size_Cons)
      next
        case False
        with Cons st show ?thesis by (simp add: step_def)
      qed
    qed
    show "chunks_size chunks3 < chunks_size chunks2" if "cur_line = []" "chunks2 \<noteq> []"
    proof -
      from that obtain c r where Cons: "chunks2 = c # r" by (cases chunks2) auto
      from that cl have "cur_len = 0" by simp
      with full Cons have long: "width < length c" by simp
      with Cons st have "handle_long_word c r cur_line cur_len width = (cur_line2, chunks3)"
        by (simp add: step_def)
      from handle_long_word_props [OF this] \<open>cur_len = 0\<close> obtain e where
        "chunks3 = drop e c # r" "1 \<le> e" by auto
      with long Cons show ?thesis by (auto simp: chunks_size_Cons)
    qed
  qed
  have sz2: "chunks_size chunks2 \<le> chunks_size chunks1"
    "cur_line \<noteq> [] \<Longrightarrow> chunks_size chunks2 < chunks_size chunks1"
    using c1 by (auto simp: chunks_size_append chunks_size_def)
  obtain cut where cut: "all_space cut" "concat cur_line2 = concat line @ cut"
  proof (cases "cur_line2 \<noteq> [] \<and> all_space (last cur_line2)")
    case True
    then have "concat cur_line2 = concat (butlast cur_line2) @ last cur_line2"
      by (metis append_butlast_last_id concat.simps(1,2) concat_append append_Nil2)
    with True line show ?thesis using that [of "last cur_line2"] by simp
  next
    case False
    with line have "line = cur_line2" by auto
    moreover have "all_space []" by (simp add: all_space_def)
    ultimately show ?thesis using that [of "[]"] by simp
  qed
  have "chunks_size rest < chunks_size chunks"
  proof (cases "chunks1 = chunks")
    case False
    then have "chunks_size chunks1 < chunks_size chunks" by (rule dsz(2))
    with sz2(1) sz3(1) rest show ?thesis by simp
  next
    case True
    show ?thesis
    proof (cases "cur_line = []")
      case False
      then have "chunks_size chunks2 < chunks_size chunks1" by (rule sz2(2))
      with sz3(1) dsz(1) rest show ?thesis by simp
    next
      case Nil: True
      with c1 True ne have "chunks2 \<noteq> []" by simp
      with Nil have "chunks_size chunks3 < chunks_size chunks2" by (rule sz3(2))
      with sz2(1) dsz(1) rest show ?thesis by simp
    qed
  qed
  with d s2 cut rest show ?thesis by (intro exI [of _ dropped] exI [of _ cut]) simp
qed

lemma wrap_line_smaller:
  "chunks \<noteq> [] \<Longrightarrow> (line, rest) = wrap_line width started chunks \<Longrightarrow>
     chunks_size rest < chunks_size chunks"
  using wrap_line_decomp [of chunks width started line rest] by auto

function wrap_chunks :: "nat \<Rightarrow> bool \<Rightarrow> pystr list \<Rightarrow> pystr list" where
  "wrap_chunks width started chunks =
     (if chunks = [] then []
      else (case wrap_line width started chunks of
              (cur_line, rest) \<Rightarrow>
                if cur_line \<noteq> [] then concat cur_line # wrap_chunks width True rest
                else wrap_chunks width started rest))"
  by pat_completeness auto
termination
  by (relation "measure (\<lambda>(width, started, chunks). chunks_size chunks)")
     (auto dest: wrap_line_smaller)

declare wrap_chunks.simps [simp del]

definition fill :: "(nat \<Rightarrow> cclass) \<Rightarrow> int \<Rightarrow> pystr \<Rightarrow> error + pystr" where
  "fill ucd width text =
     (if width \<le> 0 then Inl ValueError
      else Inr (join [10] (wrap_chunks (nat width) False (split_chunks ucd text))))"

section \<open>The random source\<close>

text \<open>
  The module-level functions of \<open>random\<close> share one hidden generator. Its state is
  modelled as the sequence of raw draws it will still deliver (an exhausted sequence
  delivers 0), and every library call maps the draws it consumes onto its documented
  range of results. Every sequence of results the library can deliver is the image of
  some such state, so a statement about all states covers all outcomes; how a seed
  determines the draws (the Mersenne Twister) is not modelled.
\<close>

type_synonym rng = "nat list"

definition next_draw :: "rng \<Rightarrow> nat \<times> rng" where
  "next_draw g = (case g of [] \<Rightarrow> (0, []) | n # g' \<Rightarrow> (n, g'))"

text \<open>\<open>random.random()\<close>: a multiple of \<open>2 ^ - 53\<close> in the interval from 0 to 1, 1 excluded.\<close>

definition random_random :: "rng \<Rightarrow> rat \<times> rng" where
  "random_random g = (case next_draw g of (n, g') \<Rightarrow> (of_nat (n mod 2 ^ 53) / 2 ^ 53, g'))"

definition randbelow :: "nat \<Rightarrow> rng \<Rightarrow> nat \<times> rng" where
  "randbelow n g = (case next_draw g of (d, g') \<Rightarrow> (d mod n, g'))"

text \<open>\<open>random.randint(a, b)\<close>: both ends included; an empty range raises.\<close>

definition randint :: "int \<Rightarrow> int \<Rightarrow> rng \<Rightarrow> error + int \<times> rng" where
  "randint a b g =
     (if b < a then Inl ValueError
      else (case randbelow (nat (b - a + 1)) g of (d, g') \<Rightarrow> Inr (a + int d, g')))"

text \<open>\<open>random.choice(seq)\<close>: an empty sequence raises.\<close>

definition choice :: "'a list \<Rightarrow> rng \<Rightarrow> error + 'a \<times> rng" where
  "choice seq g =
     (if seq = [] then Inl IndexError
      else (case randbelow (length seq) g of (j, g') \<Rightarrow> Inr (seq ! j, g')))"

text \<open>
  \<open>random.sample(population, k)\<close>, by the partial shuffle CPython uses for populations
  of at most 21 elements: the chosen slot is refilled with the last live element of
  the pool. (For larger populations CPython draws positions until it finds an unused
  one; the possible results are the same.) \<open>pool\<close> is the live part of the pool.
\<close>

fun sample_loop :: "'a list \<Rightarrow> nat \<Rightarrow> rng \<Rightarrow> 'a list \<times> rng" where
  "sample_loop pool 0 g = ([], g)"
| "sample_loop pool (Suc k) g =
     (case randbelow (length pool) g of
        (j, g1) \<Rightarrow>
          (case sample_loop (butlast (pool[j := last pool])) k g1 of
             (xs, g2) \<Rightarrow> (pool ! j # xs, g2)))"

definition sample :: "'a list \<Rightarrow> int \<Rightarrow> rng \<Rightarrow> error + 'a list \<times> rng" where
  "sample population k g =
     (if k < 0 \<or> int (length population) < k then Inl ValueError
      else Inr (sample_loop population (nat k) g))"

section \<open>Configuration and data model\<close>

text \<open>
  The module-level constants that the generator reads, as one record, so that a
  statement can speak about other settings than the defaults. A probability is the
  exact value of its floating-point constant.
\<close>

record config =
  VISA_TYPES :: "pystr list"
  FIELDS :: "pystr list"
  P_OMIT_KEY_FACT :: rat
  P_WRONG_COUNT :: rat
  P_HALLUCINATION :: rat
  P_WEAK_VISA_MENTION :: rat
  P_STYLE_WEAK :: rat
  P_SECTION_MISS :: rat
  PUB_RANGE :: "int \<times> int"
  CITATION_RANGE :: "int \<times> int"
  AWARD_POOL :: "pystr list"
  VENUE_POOL :: "pystr list"
  ORG_POOL :: "pystr list"
  TITLE_POOL :: "pystr list"

definition default_config :: config where
  "default_config = \<lparr>
     VISA_TYPES = [S ''EB-1A'', S ''O-1A'', S ''NIW''],
     FIELDS = [S ''computer vision'', S ''computational biology'', S ''robotics'', S ''NLP'',
               S ''theoretical CS'', S ''HCI'', S ''cybersecurity''],
     P_OMIT_KEY_FACT = 5404319552844595 / 18014398509481984,
     P_WRONG_COUNT = 3602879701896397 / 18014398509481984,
     P_HALLUCINATION = 1080863910568919 / 9007199254740992,
     P_WEAK_VISA_MENTION = 1 / 2,
     P_STYLE_WEAK = 5404319552844595 / 9007199254740992,
     P_SECTION_MISS = 1 / 4,
     PUB_RANGE = (8, 80),
     CITATION_RANGE = (200, 5000),
     AWARD_POOL = [S ''ACM Best Paper Award'', S ''IEEE Fellow'', S ''Sloan Fellowship'',
                   S ''NSF CAREER Award'', S ''Turing Award nomination'', S ''AAAI Fellow'',
                   S ''ACL Best Paper Award'', S ''NeurIPS Outstanding Paper'', S ''ICLR Spotlight''],
     VENUE_POOL = [S ''NeurIPS'', S ''ICML'', S ''CVPR'', S ''ACL'', S ''EMNLP'', S ''KDD'',
                   S ''AAAI'', S ''ICLR''],
     ORG_POOL = [S ''MIT'', S ''Stanford'', S ''CMU'', S ''Berkeley'', S ''Google DeepMind'',
                 S ''Microsoft Research'', S ''OpenAI'', S ''Caltech''],
     TITLE_POOL = [S ''Professor'', S ''Associate Professor'', S ''Research Scientist'',
                   S ''Principal Scientist'', S ''Chair'', S ''Director'']
   \<rparr>"

record person =
  full_name :: pystr
  affiliation :: pystr
  title :: pystr

record beneficiary_facts =
  name :: pystr
  field :: pystr
  pubs :: int
  citations :: int
  key_awards :: "pystr list"
  key_venues :: "pystr list"

section \<open>Helpers\<close>

definition choice_no_replacement :: "pystr list \<Rightarrow> int \<Rightarrow> rng \<Rightarrow> error + pystr list \<times> rng" where
  "choice_no_replacement pool k g = sample pool (min k (int (length pool))) g"

definition mk_beneficiary :: "config \<Rightarrow> int \<Rightarrow> rng \<Rightarrow> error + beneficiary_facts \<times> rng" where
  "mk_beneficiary cfg i g =
     bind_e (choice (FIELDS cfg) g) (\<lambda>(fld, g1).
     bind_e (randint (fst (PUB_RANGE cfg)) (snd (PUB_RANGE cfg)) g1) (\<lambda>(pbs, g2).
     bind_e (randint (fst (CITATION_RANGE cfg)) (snd (CITATION_RANGE cfg)) g2) (\<lambda>(cits, g3).
     bind_e (randint 0 2 g3) (\<lambda>(ka, g4).
     bind_e (choice_no_replacement (AWARD_POOL cfg) ka g4) (\<lambda>(awards, g5).
     bind_e (randint 1 3 g5) (\<lambda>(kv, g6).
     bind_e (choice_no_replacement (VENUE_POOL cfg) kv g6) (\<lambda>(venues, g7).
     Inr (\<lparr>name = S ''Dr. Alex '' @ str_int i, field = fld, pubs = pbs, citations = cits,
            key_awards = awards, key_venues = venues\<rparr>, g7))))))))"

definition mk_recommender :: "config \<Rightarrow> int \<Rightarrow> rng \<Rightarrow> error + person \<times> rng" where
  "mk_recommender cfg i g =
     bind_e (choice (ORG_POOL cfg) g) (\<lambda>(aff, g1).
     bind_e (choice (TITLE_POOL cfg) g1) (\<lambda>(ttl, g2).
     Inr (\<lparr>full_name = S ''Dr. Jordan '' @ str_int i, affiliation = aff, title = ttl\<rparr>, g2)))"

text \<open>The text that \<open>facts_to_string\<close> hands to \<open>textwrap.fill\<close>.\<close>

definition facts_text :: "beneficiary_facts \<Rightarrow> pystr" where
  "facts_text b =
     (let awards = (if key_awards b \<noteq> [] then join (S '', '') (key_awards b) else EM_DASH);
          venues = join (S '', '') (key_venues b)
      in name b @ S '' works in '' @ field b @ S ''. Publications: '' @ str_int (pubs b)
         @ S ''. Citations: '' @ str_int (citations b) @ S ''. Awards: '' @ awards
         @ S ''. Key venues: '' @ venues @ S ''.'')"

definition facts_to_string :: "(nat \<Rightarrow> cclass) \<Rightarrow> beneficiary_facts \<Rightarrow> error + pystr" where
  "facts_to_string ucd b = fill ucd 120 (facts_text b)"

definition recommender_to_string :: "person \<Rightarrow> pystr" where
  "recommender_to_string r = full_name r @ S '', '' @ title r @ S '', '' @ affiliation r"





definition maybe_wrong_count :: "int \<Rightarrow> rng \<Rightarrow> error + int \<times> rng" where
  "maybe_wrong_count true_val g =
     bind_e (randint 5 20 g) (\<lambda>(delta, g1).
     bind_e (choice [- delta, delta] g1) (\<lambda>(d, g2).
     Inr (max 1 (true_val + d), g2)))"

section \<open>The rough draft\<close>

text \<open>
  Indexing and item assignment on a list, with Python's negative indices and its
  \<open>IndexError\<close>.
\<close>

definition item_index :: "'a list \<Rightarrow> int \<Rightarrow> nat option" where
  "item_index xs i =
     (if 0 \<le> i \<and> i < int (length xs) then Some (nat i)
      else if i < 0 \<and> - int (length xs) \<le> i then Some (nat (int (length xs) + i))
      else None)"

definition get_item :: "'a list \<Rightarrow> int \<Rightarrow> error + 'a" where
  "get_item xs i = (case item_index xs i of None \<Rightarrow> Inl IndexError | Some j \<Rightarrow> Inr (xs ! j))"

definition set_item :: "'a list \<Rightarrow> int \<Rightarrow> 'a \<Rightarrow> error + 'a list" where
  "set_item xs i v =
     (case item_index xs i of None \<Rightarrow> Inl IndexError | Some j \<Rightarrow> Inr (xs[j := v]))"

text \<open>\<open>chunks[i] += s\<close>.\<close>

definition add_item :: "pystr list \<Rightarrow> int \<Rightarrow> pystr \<Rightarrow> error + pystr list" where
  "add_item chunks i s = bind_e (get_item chunks i) (\<lambda>old. set_item chunks i (old @ s))"

text \<open>
  \<open>mk_rough_draft\<close> is a straight line of eight gates over the list \<open>chunks\<close> and the
  random source. Each gate is one function here, in the order of the source, from the
  pair of both to the pair after it.
\<close>

definition base_chunks :: "beneficiary_facts \<Rightarrow> pystr list" where
  "base_chunks b =
     (let intro = S ''I am writing to recommend '' @ name b @ S ''. '' @ name b
                  @ S '' is a talented researcher in '' @ field b @ S ''.'';
          evidence = S ''They have many publications and their work is known at venues like ''
                     @ join (S '', '') (key_venues b) @ S ''.'';
          closing = S ''I believe they are qualified for the visa.''
      in [intro, evidence, closing])"

definition weak_visa_mention ::
  "config \<Rightarrow> pystr \<Rightarrow> pystr list \<times> rng \<Rightarrow> error + pystr list \<times> rng" where
  "weak_visa_mention cfg visa_type st =
     (case st of (chunks, g) \<Rightarrow>
      case random_random g of (u, g1) \<Rightarrow>
        if u < P_WEAK_VISA_MENTION cfg
        then bind_e (set_item chunks (- 1) (S ''I believe they are highly qualified.''))
               (\<lambda>chunks. Inr (chunks, g1))
        else bind_e (set_item chunks (- 1)
                       (S ''I believe they are qualified for the '' @ visa_type @ S '' visa.''))
               (\<lambda>chunks. Inr (chunks, g1)))"

definition omit_key_fact ::
  "config \<Rightarrow> beneficiary_facts \<Rightarrow> pystr list \<times> rng \<Rightarrow> error + pystr list \<times> rng" where
  "omit_key_fact cfg b st =
     (case st of (chunks, g) \<Rightarrow>
      case random_random g of (u, g1) \<Rightarrow>
        if u < P_OMIT_KEY_FACT cfg
        then (if key_awards b \<noteq> []
              then (case random_random g1 of (v, g2) \<Rightarrow>
                      if v < 3152519739159347 / 4503599627370496
                      then bind_e (set_item chunks 1
                                     (S ''They have many publications and are recognized in their field.''))
                             (\<lambda>chunks. Inr (chunks, g2))
                      else bind_e (set_item chunks 1 (S ''Their work is recognized at top venues.''))
                             (\<lambda>chunks. Inr (chunks, g2)))
              else bind_e (set_item chunks 1 (S ''Their work is recognized at top venues.''))
                     (\<lambda>chunks. Inr (chunks, g1)))
        else Inr (chunks, g1))"

definition wrong_count ::
  "config \<Rightarrow> beneficiary_facts \<Rightarrow> pystr list \<times> rng \<Rightarrow> error + pystr list \<times> rng" where
  "wrong_count cfg b st =
     (case st of (chunks, g) \<Rightarrow>
      case random_random g of (u, g1) \<Rightarrow>
        if u < P_WRONG_COUNT cfg
        then bind_e (maybe_wrong_count (pubs b) g1) (\<lambda>(wrong_pubs, g2).
             bind_e (add_item chunks 1
                       (S '' They have around '' @ str_int wrong_pubs @ S '' publications.''))
               (\<lambda>chunks. Inr (chunks, g2)))
        else bind_e (add_item chunks 1
                       (S '' They have around '' @ str_int (pubs b) @ S '' publications.''))
               (\<lambda>chunks. Inr (chunks, g1)))"

definition FAKE_AWARDS :: "pystr list" where
  "FAKE_AWARDS = [S ''Best Innovator 2022'', S ''Global Genius Prize'', S ''World AI Medal'']"

definition hallucination :: "config \<Rightarrow> pystr list \<times> rng \<Rightarrow> error + pystr list \<times> rng" where
  "hallucination cfg st =
     (case st of (chunks, g) \<Rightarrow>
      case random_random g of (u, g1) \<Rightarrow>
        if u < P_HALLUCINATION cfg
        then bind_e (choice FAKE_AWARDS g1) (\<lambda>(fake_award, g2).
             bind_e (add_item chunks 1 (S '' They also received the '' @ fake_award @ S ''.''))
               (\<lambda>chunks. Inr (chunks, g2)))
        else Inr (chunks, g1))"

definition FILLER :: pystr where
  "FILLER = S ''I am pleased to write this letter. It is my pleasure to write this letter.''"

definition style_weak :: "config \<Rightarrow> pystr list \<times> rng \<Rightarrow> error + pystr list \<times> rng" where
  "style_weak cfg st =
     (case st of (chunks, g) \<Rightarrow>
      case random_random g of (u, g1) \<Rightarrow>
        if u < P_STYLE_WEAK cfg then Inr (FILLER # chunks, g1) else Inr (chunks, g1))"

text \<open>\<open>chunks.pop(0)\<close> runs only behind \<open>len(chunks) > 2\<close>, so it never raises.\<close>

definition section_miss :: "config \<Rightarrow> pystr list \<times> rng \<Rightarrow> error + pystr list \<times> rng" where
  "section_miss cfg st =
     (case st of (chunks, g) \<Rightarrow>
      case random_random g of (u, g1) \<Rightarrow>
        if u < P_SECTION_MISS cfg
        then (case random_random g1 of (coin, g2) \<Rightarrow>
                if coin < 1 / 2 \<and> length chunks > 2
                then Inr (tl chunks, g2)
                else Inr (butlast chunks, g2))
        else Inr (chunks, g1))"

definition visa_misname ::
  "config \<Rightarrow> pystr \<Rightarrow> pystr list \<times> rng \<Rightarrow> error + pystr list \<times> rng" where
  "visa_misname cfg visa_type st =
     (case st of (chunks, g) \<Rightarrow>
      case random_random g of (u, g1) \<Rightarrow>
        if u < 5764607523034235 / 72057594037927936
        then bind_e (choice (filter (\<lambda>v. v \<noteq> visa_type) (VISA_TYPES cfg)) g1) (\<lambda>(wrong_visa, g2).
             bind_e (set_item chunks (- 1)
                       (S ''I believe they are qualified for the '' @ wrong_visa @ S '' visa.''))
               (\<lambda>chunks. Inr (chunks, g2)))
        else Inr (chunks, g1))"

definition PASSIVE_FILLER :: pystr where
  "PASSIVE_FILLER = S '' Their contributions have been considered impactful by many, in ways that are thought to be significant.''"

text \<open>The text handed to \<open>textwrap.fill\<close>: the chunks joined, and the last gate.\<close>

definition rough_body :: "pystr list \<times> rng \<Rightarrow> pystr \<times> rng" where
  "rough_body st =
     (case st of (chunks, g) \<Rightarrow>
      case random_random g of (u, g1) \<Rightarrow>
        if u < 3152519739159347 / 9007199254740992
        then (join (S '' '') chunks @ PASSIVE_FILLER, g1)
        else (join (S '' '') chunks, g1))"

text \<open>
  The state of \<open>chunks\<close> and of the random source after the first five gates, which
  edit the segments, and after the section omission and the visa misnaming.
\<close>

definition noised_chunks ::
  "config \<Rightarrow> pystr \<Rightarrow> beneficiary_facts \<Rightarrow> rng \<Rightarrow> error + pystr list \<times> rng" where
  "noised_chunks cfg visa_type b g =
     bind_e (weak_visa_mention cfg visa_type (base_chunks b, g)) (\<lambda>st.
     bind_e (omit_key_fact cfg b st) (\<lambda>st.
     bind_e (wrong_count cfg b st) (\<lambda>st.
     bind_e (hallucination cfg st) (\<lambda>st.
     style_weak cfg st))))"

definition rough_chunks ::
  "config \<Rightarrow> pystr \<Rightarrow> beneficiary_facts \<Rightarrow> rng \<Rightarrow> error + pystr list \<times> rng" where
  "rough_chunks cfg visa_type b g =
     bind_e (noised_chunks cfg visa_type b g) (\<lambda>st.
     bind_e (section_miss cfg st) (\<lambda>st.
     visa_misname cfg visa_type st))"

definition mk_rough_draft ::
  "(nat \<Rightarrow> cclass) \<Rightarrow> config \<Rightarrow> pystr \<Rightarrow> person \<Rightarrow> beneficiary_facts \<Rightarrow> rng \<Rightarrow> error + pystr \<times> rng" where
  "mk_rough_draft ucd cfg visa_type r b g =
     bind_e (rough_chunks cfg visa_type b g) (\<lambda>st.
     case rough_body st of (body, g') \<Rightarrow>
       bind_e (fill ucd 110 body) (\<lambda>text. Inr (text, g')))"

section \<open>Vocabulary of the properties\<close>

text \<open>
  Names for the sentences that the gates of \<open>mk_rough_draft\<close> write, and for the shape of
  the evidence segment after the first four gates: one of the three evidence sentences,
  then the publication-count claim, then possibly the sentence about a fabricated award.
\<close>

definition closing_for :: "pystr \<Rightarrow> pystr" where
  "closing_for v = S ''I believe they are qualified for the '' @ v @ S '' visa.''"

definition WEAK_CLOSING :: pystr where
  "WEAK_CLOSING = S ''I believe they are highly qualified.''"

definition count_claim :: "int \<Rightarrow> pystr" where
  "count_claim n = S '' They have around '' @ str_int n @ S '' publications.''"

definition fake_claim :: "pystr \<Rightarrow> pystr" where
  "fake_claim f = S '' They also received the '' @ f @ S ''.''"

definition is_evidence :: "beneficiary_facts \<Rightarrow> pystr \<Rightarrow> bool" where
  "is_evidence b E \<longleftrightarrow>
     (\<exists>e n h. E = e @ count_claim n @ h
        \<and> (e = base_chunks b ! 1
            \<or> e = S ''They have many publications and are recognized in their field.''
            \<or> e = S ''Their work is recognized at top venues.'')
        \<and> (h = [] \<or> (\<exists>f \<in> set FAKE_AWARDS. h = fake_claim f)))"

text \<open>
  \<open>textwrap.fill\<close> moves line breaks, so what it keeps of a text is stated on the text
  without its white space; \<open>no_whitespace\<close> says that a string cannot be touched by the
  whitespace stage of the wrapper.
\<close>

definition strip_space :: "pystr \<Rightarrow> pystr" where
  "strip_space s = filter (\<lambda>c. \<not> isspace c) s"

definition no_whitespace :: "pystr \<Rightarrow> bool" where
  "no_whitespace t \<longleftrightarrow> (\<forall>c \<in> set t. \<not> is_whitespace c)"

text \<open>
  Devices for following the wrapper through a long text. Every lookbehind and lookahead of
  \<open>wordsep_re\<close> stops at white space, so a text whose words are separated by single
  blanks splits word by word: \<open>cut\<close> is the part of a context that a lookaround can
  see, \<open>words_of\<close> is \<open>t.split(' ')\<close>, and \<open>word_chunks\<close> puts the chunks of the single
  words back together, with the blanks between them.
\<close>

definition cut :: "pystr \<Rightarrow> pystr" where
  "cut xs = takeWhile (\<lambda>c. \<not> is_whitespace c) xs"



section \<open>What \<open>textwrap.fill\<close> keeps of a text\<close>

lemma is_whitespace_isspace: "is_whitespace c \<Longrightarrow> isspace c"
  by (auto simp: is_whitespace_def isspace_def)

lemma strip_space_Nil [simp]: "strip_space [] = []"
  by (simp add: strip_space_def)

lemma strip_space_Cons [simp]:
  "strip_space (c # cs) = (if isspace c then strip_space cs else c # strip_space cs)"
  by (simp add: strip_space_def)

lemma strip_space_append [simp]: "strip_space (a @ b) = strip_space a @ strip_space b"
  by (simp add: strip_space_def)

lemma strip_space_all_space: "all_space s \<Longrightarrow> strip_space s = []"
  by (auto simp: strip_space_def all_space_def filter_empty_conv)

lemma split_from_concat: "concat (split_from ucd p t) = t"
  by (induction ucd p t rule: split_from.induct) simp_all

lemma wrap_chunks_strip:
  "strip_space (concat (wrap_chunks width started chunks)) = strip_space (concat chunks)"
proof (induction width started chunks rule: wrap_chunks.induct)
  case (1 width started chunks)
  show ?case
  proof (cases "chunks = []")
    case True
    then show ?thesis by (simp add: wrap_chunks.simps)
  next
    case False
    obtain line rest where wl: "wrap_line width started chunks = (line, rest)" by (metis surj_pair)
    from wrap_line_decomp [OF False wl] obtain dropped cut where
      d: "all_space dropped" "all_space cut"
         "concat chunks = dropped @ concat line @ cut @ concat rest" by blast
    have s: "strip_space (concat chunks) = strip_space (concat line) @ strip_space (concat rest)"
      using d by (simp add: strip_space_all_space)
    show ?thesis
    proof (cases "line = []")
      case True
      with False wl have "wrap_chunks width started chunks = wrap_chunks width started rest"
        by (simp add: wrap_chunks.simps [of width started chunks])
      moreover have "strip_space (concat (wrap_chunks width started rest)) = strip_space (concat rest)"
        using "1.IH"(2) [OF False wl [symmetric]] True by simp
      ultimately show ?thesis using s True by simp
    next
      case ne: False
      with False wl have "wrap_chunks width started chunks = concat line # wrap_chunks width True rest"
        by (simp add: wrap_chunks.simps [of width started chunks])
      moreover have "strip_space (concat (wrap_chunks width True rest)) = strip_space (concat rest)"
        using "1.IH"(1) [OF False wl [symmetric]] ne by simp
      ultimately show ?thesis using s by simp
    qed
  qed
qed

lemma wrap_chunks_lines:
  "line \<in> set (wrap_chunks width started chunks) \<Longrightarrow> sublist line (concat chunks)"
proof (induction width started chunks rule: wrap_chunks.induct)
  case (1 width started chunks)
  show ?case
  proof (cases "chunks = []")
    case True
    with "1.prems" show ?thesis by (simp add: wrap_chunks.simps)
  next
    case False
    obtain ln rest where wl: "wrap_line width started chunks = (ln, rest)" by (metis surj_pair)
    from wrap_line_decomp [OF False wl] obtain dropped cut where
      d: "concat chunks = dropped @ concat ln @ cut @ concat rest" by blast
    have here: "sublist (concat ln) (concat chunks)"
      unfolding d by (rule sublist_appendI)
    have there: "sublist l (concat rest) \<Longrightarrow> sublist l (concat chunks)" for l
    proof -
      assume "sublist l (concat rest)"
      moreover have "sublist (concat rest) (concat chunks)"
        unfolding d by (metis append.assoc sublist_append_leftI)
      ultimately show ?thesis by (rule sublist_order.order.trans)
    qed
    show ?thesis
    proof (cases "ln = []")
      case True
      with False wl have "wrap_chunks width started chunks = wrap_chunks width started rest"
        by (simp add: wrap_chunks.simps [of width started chunks])
      with "1.prems" have "line \<in> set (wrap_chunks width started rest)" by simp
      with "1.IH"(2) [OF False wl [symmetric]] True have "sublist line (concat rest)" by simp
      then show ?thesis by (rule there)
    next
      case ne: False
      with False wl have "wrap_chunks width started chunks = concat ln # wrap_chunks width True rest"
        by (simp add: wrap_chunks.simps [of width started chunks])
      with "1.prems" have "line = concat ln \<or> line \<in> set (wrap_chunks width True rest)" by simp
      then show ?thesis
      proof
        assume "line = concat ln"
        with here show ?thesis by simp
      next
        assume "line \<in> set (wrap_chunks width True rest)"
        with "1.IH"(1) [OF False wl [symmetric]] ne have "sublist line (concat rest)" by simp
        then show ?thesis by (rule there)
      qed
    qed
  qed
qed


lemma join_newline_strip: "strip_space (join [10] ls) = strip_space (concat ls)"
  by (induction ls rule: induct_list012) (simp_all add: isspace_def)

lemma sublist_sep:
  assumes "c \<notin> set t" and "sublist t (a @ c # b)"
  shows "sublist t a \<or> sublist t b"
  using assms(2)
proof (induction a)
  case Nil
  then have "prefix t (c # b) \<or> sublist t b" by (simp add: sublist_Cons_right)
  moreover have "t = []" if "prefix t (c # b)"
    using that assms(1) by (cases t) auto
  ultimately show ?case by auto
next
  case (Cons x a)
  from Cons.prems have "prefix t ((x # a) @ c # b) \<or> sublist t (a @ c # b)"
    by (simp add: sublist_Cons_right)
  then show ?case
  proof
    assume "prefix t ((x # a) @ c # b)"
    then consider "prefix t (x # a)" | us where "t = (x # a) @ us" "prefix us (c # b)"
      unfolding prefix_append by blast
    then show ?thesis
    proof cases
      case 1
      then show ?thesis by (blast intro: prefix_imp_sublist)
    next
      case 2
      with assms(1) have "us = []" by (cases us) auto
      with 2 show ?thesis by simp
    qed
  next
    assume "sublist t (a @ c # b)"
    from Cons.IH [OF this] show ?thesis by (auto simp: sublist_Cons_right)
  qed
qed

lemma sublist_join_newline:
  assumes "10 \<notin> set t" and "t \<noteq> []" and "sublist t (join [10] ls)"
  shows "\<exists>l \<in> set ls. sublist t l"
  using assms(3)
proof (induction ls rule: induct_list012)
  case 1
  with assms(2) show ?case by simp
next
  case (2 x)
  then show ?case by simp
next
  case (3 x y zs)
  from 3(3) have "sublist t (x @ 10 # join [10] (y # zs))" by simp
  from sublist_sep [OF assms(1) this] 3(2) show ?case by auto
qed

lemma strip_space_spaces [simp]: "strip_space (replicate k 32) = []"
  by (induction k) (simp_all add: isspace_def)

lemma strip_space_expandtabs: "strip_space (expandtabs col xs) = strip_space xs"
  by (induction xs arbitrary: col) (simp_all add: isspace_def)

lemma strip_space_munge: "strip_space (munge_whitespace xs) = strip_space xs"
proof -
  have "strip_space (map (\<lambda>c. if is_whitespace c then 32 else c) ys) = strip_space ys" for ys
    by (induction ys) (auto simp: is_whitespace_def isspace_def)
  then show ?thesis by (simp add: munge_whitespace_def strip_space_expandtabs)
qed

lemma prefix_space_Cons:
  "no_whitespace t \<Longrightarrow> is_whitespace c \<Longrightarrow> prefix t (c # ys) \<Longrightarrow> t = []"
  by (cases t) (auto simp: no_whitespace_def)

lemma sublist_space_Cons:
  "no_whitespace t \<Longrightarrow> is_whitespace c \<Longrightarrow> sublist t (c # ys) \<Longrightarrow> sublist t ys"
  by (auto simp: sublist_Cons_right dest: prefix_space_Cons)

lemma sublist_spaces_append:
  "no_whitespace t \<Longrightarrow> sublist t (replicate k 32 @ ys) \<Longrightarrow> sublist t ys"
  by (induction k) (auto dest: sublist_space_Cons simp: is_whitespace_def)

lemma prefix_expandtabs:
  "no_whitespace t \<Longrightarrow> prefix t (expandtabs col xs) \<Longrightarrow> prefix t xs"
proof (induction xs arbitrary: t col)
  case Nil
  then show ?case by simp
next
  case (Cons c cs)
  show ?case
  proof (cases t)
    case Nil
    then show ?thesis by simp
  next
    case t: (Cons a t')
    from Cons.prems(1) t have a: "\<not> is_whitespace a" and t': "no_whitespace t'"
      by (simp_all add: no_whitespace_def)
    show ?thesis
    proof (cases "c = 9")
      case True
      then obtain k where "expandtabs col (c # cs) = 32 # replicate k 32 @ expandtabs (col + (8 - col mod 8)) cs"
        by (cases "8 - col mod 8") (auto intro: that)
      with Cons.prems(2) t a show ?thesis by (simp add: is_whitespace_def)
    next
      case False
      with Cons.prems(2) t Cons.IH [OF t'] show ?thesis by auto
    qed
  qed
qed

lemma sublist_expandtabs:
  "no_whitespace t \<Longrightarrow> sublist t (expandtabs col xs) \<Longrightarrow> sublist t xs"
proof (induction xs arbitrary: col)
  case Nil
  then show ?case by simp
next
  case (Cons c cs)
  show ?case
  proof (cases "c = 9")
    case True
    with Cons.prems(2) have "sublist t (replicate (8 - col mod 8) 32 @ expandtabs (col + (8 - col mod 8)) cs)"
      by simp
    from sublist_spaces_append [OF Cons.prems(1) this] have "sublist t cs"
      by (rule Cons.IH [OF Cons.prems(1)])
    then show ?thesis by (simp add: sublist_Cons_right)
  next
    case False
    let ?col = "if c = 10 \<or> c = 13 then 0 else col + 1"
    from False Cons.prems(2) have "sublist t (c # expandtabs ?col cs)" by simp
    then have "prefix t (expandtabs col (c # cs)) \<or> sublist t (expandtabs ?col cs)"
      using False by (simp add: sublist_Cons_right)
    then show ?thesis
    proof
      assume "prefix t (expandtabs col (c # cs))"
      from prefix_expandtabs [OF Cons.prems(1) this] show ?thesis by (rule prefix_imp_sublist)
    next
      assume "sublist t (expandtabs ?col cs)"
      from Cons.IH [OF Cons.prems(1) this] show ?thesis by (simp add: sublist_Cons_right)
    qed
  qed
qed

lemma prefix_map_space:
  "no_whitespace t \<Longrightarrow> prefix t (map (\<lambda>c. if is_whitespace c then 32 else c) xs) \<Longrightarrow> prefix t xs"
proof (induction xs arbitrary: t)
  case Nil
  then show ?case by simp
next
  case (Cons c cs)
  show ?case
  proof (cases t)
    case Nil
    then show ?thesis by simp
  next
    case t: (Cons a t')
    from Cons.prems(1) t have a: "\<not> is_whitespace a" and t': "no_whitespace t'"
      by (simp_all add: no_whitespace_def)
    from Cons.prems(2) t a have "a = c" "prefix t' (map (\<lambda>c. if is_whitespace c then 32 else c) cs)"
      by (auto simp: is_whitespace_def split: if_splits)
    with Cons.IH [OF t'] t show ?thesis by simp
  qed
qed

lemma sublist_map_space:
  "no_whitespace t \<Longrightarrow> sublist t (map (\<lambda>c. if is_whitespace c then 32 else c) xs) \<Longrightarrow> sublist t xs"
proof (induction xs)
  case Nil
  then show ?case by simp
next
  case (Cons c cs)
  from Cons.prems(2) have
    "prefix t (map (\<lambda>c. if is_whitespace c then 32 else c) (c # cs))
     \<or> sublist t (map (\<lambda>c. if is_whitespace c then 32 else c) cs)"
    by (simp add: sublist_Cons_right)
  then show ?case
  proof
    assume "prefix t (map (\<lambda>c. if is_whitespace c then 32 else c) (c # cs))"
    from prefix_map_space [OF Cons.prems(1) this] show ?thesis by (rule prefix_imp_sublist)
  next
    assume "sublist t (map (\<lambda>c. if is_whitespace c then 32 else c) cs)"
    from Cons.IH [OF Cons.prems(1) this] show ?thesis by (simp add: sublist_Cons_right)
  qed
qed

lemma sublist_munge:
  "no_whitespace t \<Longrightarrow> sublist t (munge_whitespace xs) \<Longrightarrow> sublist t xs"
  unfolding munge_whitespace_def by (blast intro: sublist_expandtabs sublist_map_space)

lemma fill_Inr:
  "0 < w \<Longrightarrow> fill ucd w txt = Inr (join [10] (wrap_chunks (nat w) False (split_chunks ucd txt)))"
  by (simp add: fill_def)

lemma fill_strip:
  assumes "fill ucd w txt = Inr out"
  shows "strip_space out = strip_space txt"
proof -
  from assms have out: "out = join [10] (wrap_chunks (nat w) False (split_chunks ucd txt))"
    by (auto simp: fill_def split: if_splits)
  show ?thesis
    unfolding out join_newline_strip wrap_chunks_strip split_chunks_def split_from_concat
    by (rule strip_space_munge)
qed

lemma fill_sublist:
  assumes "fill ucd w txt = Inr out" and "no_whitespace t" and "t \<noteq> []" and "sublist t out"
  shows "sublist t txt"
proof -
  from assms(1) have out: "out = join [10] (wrap_chunks (nat w) False (split_chunks ucd txt))"
    by (auto simp: fill_def split: if_splits)
  from assms(2) have "10 \<notin> set t" by (auto simp: no_whitespace_def is_whitespace_def)
  from sublist_join_newline [OF this assms(3) assms(4) [unfolded out]] obtain l where
    l: "l \<in> set (wrap_chunks (nat w) False (split_chunks ucd txt))" "sublist t l" by blast
  from wrap_chunks_lines [OF l(1)] have "sublist l (munge_whitespace txt)"
    by (simp add: split_chunks_def split_from_concat)
  with l(2) have "sublist t (munge_whitespace txt)" by (rule sublist_order.order.trans)
  with assms(2) show ?thesis by (rule sublist_munge)
qed

text \<open>
  C8. For facts without awards, \<open>facts_to_string\<close> raises nothing, and the paragraph it
  returns is, line breaks and spacing apart, the sentence that states the name, the field,
  the two counts, the placeholder for the awards and the comma-joined venues; the
  placeholder itself stands in the paragraph.
\<close>

theorem facts_to_string_placeholder:
  "key_awards b = [] \<Longrightarrow>
     \<exists>t. facts_to_string ucd b = Inr t
       \<and> strip_space t =
           strip_space (name b @ S '' works in '' @ field b @ S ''. Publications: ''
             @ str_int (pubs b) @ S ''. Citations: '' @ str_int (citations b)
             @ S ''. Awards: '' @ EM_DASH @ S ''. Key venues: ''
             @ join (S '', '') (key_venues b) @ S ''.'')
       \<and> sublist EM_DASH t"
proof -
  assume no_awards: "key_awards b = []"
  obtain t where t: "facts_to_string ucd b = Inr t"
    by (auto simp: facts_to_string_def fill_def)
  then have "fill ucd 120 (facts_text b) = Inr t" by (simp add: facts_to_string_def)
  then have st: "strip_space t = strip_space (facts_text b)" by (rule fill_strip)
  have "8212 \<in> set (strip_space (facts_text b))"
    by (simp add: no_awards facts_text_def EM_DASH_def isspace_def)
  with st have "8212 \<in> set (strip_space t)" by simp
  then have "8212 \<in> set t" by (simp add: strip_space_def)
  then have "sublist EM_DASH t"
    by (auto simp: EM_DASH_def sublist_def in_set_conv_decomp)
  with t st no_awards show ?thesis by (simp add: facts_text_def)
qed

theorem facts_to_string_placeholder_witness:
  "key_awards \<lparr>name = S ''Dr. Alex 1'', field = S ''NLP'', pubs = 22, citations = 1400,
      key_awards = [], key_venues = [S ''ACL'', S ''EMNLP'']\<rparr> = []
   \<and> (\<exists>t. facts_to_string (\<lambda>c. NonWord)
            \<lparr>name = S ''Dr. Alex 1'', field = S ''NLP'', pubs = 22, citations = 1400,
              key_awards = [], key_venues = [S ''ACL'', S ''EMNLP'']\<rparr> = Inr t
          \<and> sublist EM_DASH t)"
  using facts_to_string_placeholder [of
      "\<lparr>name = S ''Dr. Alex 1'', field = S ''NLP'', pubs = 22, citations = 1400,
        key_awards = [], key_venues = [S ''ACL'', S ''EMNLP'']\<rparr>" "\<lambda>c. NonWord"]
  by auto

section \<open>Wrapping word by word\<close>

lemma cut_Nil [simp]: "cut [] = []"
  by (simp add: cut_def)

lemma cut_Cons: "cut (c # cs) = (if is_whitespace c then [] else c # cut cs)"
  by (simp add: cut_def)

lemma cut_cut [simp]: "cut (cut xs) = cut xs"
  by (induction xs) (simp_all add: cut_Cons)




lemma hyphen_not_whitespace [simp]: "\<not> is_whitespace 45"
  by (simp add: is_whitespace_def)
















lemma cut_space [simp]: "cut (32 # xs) = []"
  by (simp add: cut_Cons is_whitespace_def)








section \<open>The final draft\<close>

lemma digits_range: "c \<in> set (digits n) \<Longrightarrow> 48 \<le> c \<and> c \<le> 57"
proof (induction n rule: digits.induct)
  case (1 n)
  then show ?case by (subst (asm) digits.simps) (auto split: if_splits)
qed

lemma str_int_chars: "c \<in> set (str_int i) \<Longrightarrow> c = 45 \<or> (48 \<le> c \<and> c \<le> 57)"
  by (auto simp: str_int_def dest: digits_range split: if_splits)

lemma strip_space_str_int [simp]: "strip_space (str_int i) = str_int i"
  unfolding strip_space_def filter_id_conv
  by (auto simp: isspace_def dest: str_int_chars)













section \<open>Properties of the random source and of the fact synthesizer\<close>

lemma bind_e_Inr: "bind_e m f = Inr y \<longleftrightarrow> (\<exists>x. m = Inr x \<and> f x = Inr y)"
  by (cases m) (simp_all add: bind_e_def)

lemma randbelow_less: "0 < n \<Longrightarrow> randbelow n g = (d, g') \<Longrightarrow> d < n"
  by (auto simp: randbelow_def split: prod.splits)

lemma randint_range: "randint a b g = Inr (x, g') \<Longrightarrow> a \<le> x \<and> x \<le> b"
proof -
  assume r: "randint a b g = Inr (x, g')"
  then have ab: "a \<le> b" by (auto simp: randint_def split: if_splits)
  obtain d where d: "randbelow (nat (b - a + 1)) g = (d, g')" "x = a + int d"
    using r ab by (auto simp: randint_def split: if_splits prod.splits)
  from ab have "0 < nat (b - a + 1)" by simp
  from randbelow_less [OF this d(1)] have "int d < b - a + 1" by linarith
  with d(2) show ?thesis by simp
qed

lemma choice_mem: "choice seq g = Inr (x, g') \<Longrightarrow> x \<in> set seq"
  by (auto simp: choice_def randbelow_def split: if_splits prod.splits)

lemma refill_mset:
  assumes "j < length pool"
  shows "mset (butlast (pool[j := last pool])) + {#pool ! j#} = mset pool"
proof -
  from assms have ne: "pool \<noteq> []" by auto
  let ?q = "pool[j := last pool]"
  have neq: "?q \<noteq> []" using ne by simp
  have lastq: "last ?q = last pool"
    using assms ne by (simp add: last_conv_nth nth_list_update)
  have "mset ?q = mset pool - {#pool ! j#} + {#last pool#}"
    using assms by (simp add: mset_update)
  moreover have "mset ?q = mset (butlast ?q) + {#last ?q#}"
    using neq by (metis append_butlast_last_id mset.simps(1,2) union_code add_mset_add_single mset_append)
  ultimately have "mset (butlast ?q) + {#last pool#} = mset pool - {#pool ! j#} + {#last pool#}"
    using lastq by simp
  then have "mset (butlast ?q) = mset pool - {#pool ! j#}" by simp
  moreover have "pool ! j \<in># mset pool" using assms by simp
  ultimately show ?thesis by simp
qed


lemma distinct_of_submset:
  assumes "mset xs \<subseteq># mset ys" "distinct ys"
  shows "distinct xs"
proof -
  have le: "count (mset xs) a \<le> 1" for a
  proof -
    have "count (mset xs) a \<le> count (mset ys) a" using assms(1) by (rule mset_subset_eq_count)
    also have "\<dots> \<le> 1" using assms(2) by (simp add: distinct_count_atmost_1)
    finally show ?thesis .
  qed
  have "count (mset xs) a = (if a \<in> set xs then 1 else 0)" for a
  proof (cases "a \<in> set xs")
    case True
    then have "count (mset xs) a \<noteq> 0" by (simp add: count_mset_0_iff)
    moreover have "count (mset xs) a \<le> 1" by (rule le)
    ultimately have "count (mset xs) a = 1" by linarith
    with True show ?thesis by simp
  next
    case False
    then show ?thesis by (simp add: count_mset_0_iff)
  qed
  then show ?thesis by (simp add: distinct_count_atmost_1)
qed

lemma sample_loop_props:
  "k \<le> length pool \<Longrightarrow> sample_loop pool k g = (xs, g') \<Longrightarrow>
     length xs = k \<and> mset xs \<subseteq># mset pool"
proof (induction k arbitrary: pool g xs g')
  case 0
  then show ?case by simp
next
  case (Suc k)
  obtain j g1 where rb: "randbelow (length pool) g = (j, g1)" by (metis surj_pair)
  let ?pool' = "butlast (pool[j := last pool])"
  obtain ys g2 where sl: "sample_loop ?pool' k g1 = (ys, g2)" by (metis surj_pair)
  from Suc.prems(1) have pos: "0 < length pool" by (cases pool) simp_all
  from randbelow_less [OF pos rb] have j: "j < length pool" .
  from Suc.prems(1) have "k \<le> length ?pool'" by simp
  from Suc.IH [OF this sl] have ih: "length ys = k" "mset ys \<subseteq># mset ?pool'" by simp_all
  from Suc.prems(2) rb sl have xs: "xs = pool ! j # ys" by simp
  have "mset xs = mset ys + {#pool ! j#}" using xs by simp
  also have "\<dots> \<subseteq># mset ?pool' + {#pool ! j#}" using ih(2) by simp
  also have "\<dots> = mset pool" by (rule refill_mset [OF j])
  finally show ?case using xs ih(1) by simp
qed

lemma choice_no_replacement_props:
  assumes "choice_no_replacement pool k g = Inr (xs, g')"
  shows "0 \<le> k" "int (length xs) = min k (int (length pool))" "set xs \<subseteq> set pool"
    "distinct pool \<Longrightarrow> distinct xs"
proof -
  let ?m = "min k (int (length pool))"
  from assms have nonneg: "0 \<le> ?m" and sl: "sample_loop pool (nat ?m) g = (xs, g')"
    by (auto simp: choice_no_replacement_def sample_def split: if_splits)
  from nonneg show "0 \<le> k" by simp
  have "nat ?m \<le> length pool" by simp
  from sample_loop_props [OF this sl] have len: "length xs = nat ?m" and sub: "mset xs \<subseteq># mset pool"
    by simp_all
  from len nonneg show "int (length xs) = ?m" by simp
  from sub show "set xs \<subseteq> set pool" by (metis set_mset_mono set_mset_mset)
  show "distinct xs" if "distinct pool"
    using sub that by (rule distinct_of_submset)
qed

lemma choice_no_replacement_empty:
  "0 \<le> k \<Longrightarrow> choice_no_replacement [] k g = Inr ([], g)"
  by (simp add: choice_no_replacement_def sample_def)

lemma mk_beneficiary_Inr:
  assumes "mk_beneficiary cfg i g = Inr (b, g')"
  shows "\<exists>g1 g2 g3 ka g4 g5 kv g6.
     choice (FIELDS cfg) g = Inr (field b, g1) \<and>
     randint (fst (PUB_RANGE cfg)) (snd (PUB_RANGE cfg)) g1 = Inr (pubs b, g2) \<and>
     randint (fst (CITATION_RANGE cfg)) (snd (CITATION_RANGE cfg)) g2 = Inr (citations b, g3) \<and>
     randint 0 2 g3 = Inr (ka, g4) \<and>
     choice_no_replacement (AWARD_POOL cfg) ka g4 = Inr (key_awards b, g5) \<and>
     randint 1 3 g5 = Inr (kv, g6) \<and>
     choice_no_replacement (VENUE_POOL cfg) kv g6 = Inr (key_venues b, g') \<and>
     name b = S ''Dr. Alex '' @ str_int i"
  using assms by (fastforce simp: mk_beneficiary_def bind_e_Inr split_beta)


lemma random_random_0: "random_random (0 # g) = (0, g)"
  by (simp add: random_random_def next_draw_def)

lemma random_random_max:
  "random_random (9007199254740991 # g) = (9007199254740991 / 9007199254740992, g)"
  by (simp add: random_random_def next_draw_def)

lemma mk_beneficiary_example:
  "mk_beneficiary default_config 1 [3, 14, 1200, 1, 0, 1, 3, 4] =
   Inr (\<lparr>name = S ''Dr. Alex 1'', field = S ''NLP'', pubs = 22, citations = 1400,
          key_awards = [S ''ACM Best Paper Award''], key_venues = [S ''ACL'', S ''EMNLP'']\<rparr>, [])"
  by (simp add: mk_beneficiary_def bind_e_def choice_def randint_def randbelow_def next_draw_def
       choice_no_replacement_def sample_def default_config_def str_int_def digits.simps S_def
       numeral_2_eq_2)

text \<open>
  C6. Every \<open>BeneficiaryFacts\<close> that \<open>mk_beneficiary\<close> returns has its publication and
  citation counts inside the configured ranges, both ends included; its awards and its
  venues are duplicate-free selections from their pools (the pools being duplicate-free,
  as the configured ones are); there are at most 2 awards, and between 1 and 3 venues
  when the venue pool is not empty.
\<close>

theorem mk_beneficiary_invariants:
  assumes "mk_beneficiary cfg i g = Inr (b, g')"
    and "distinct (AWARD_POOL cfg)" and "distinct (VENUE_POOL cfg)" and "VENUE_POOL cfg \<noteq> []"
  shows "fst (PUB_RANGE cfg) \<le> pubs b \<and> pubs b \<le> snd (PUB_RANGE cfg)
       \<and> fst (CITATION_RANGE cfg) \<le> citations b \<and> citations b \<le> snd (CITATION_RANGE cfg)
       \<and> distinct (key_awards b) \<and> set (key_awards b) \<subseteq> set (AWARD_POOL cfg)
       \<and> distinct (key_venues b) \<and> set (key_venues b) \<subseteq> set (VENUE_POOL cfg)
       \<and> length (key_awards b) \<le> 2
       \<and> 1 \<le> length (key_venues b) \<and> length (key_venues b) \<le> 3"
proof -
  from mk_beneficiary_Inr [OF assms(1)] obtain g1 g2 g3 ka g4 g5 kv g6 where
    p: "randint (fst (PUB_RANGE cfg)) (snd (PUB_RANGE cfg)) g1 = Inr (pubs b, g2)" and
    c: "randint (fst (CITATION_RANGE cfg)) (snd (CITATION_RANGE cfg)) g2 = Inr (citations b, g3)" and
    ka: "randint 0 2 g3 = Inr (ka, g4)" and
    a: "choice_no_replacement (AWARD_POOL cfg) ka g4 = Inr (key_awards b, g5)" and
    kv: "randint 1 3 g5 = Inr (kv, g6)" and
    v: "choice_no_replacement (VENUE_POOL cfg) kv g6 = Inr (key_venues b, g')"
    by blast
  note ra = randint_range [OF ka] and rv = randint_range [OF kv]
  note pa = choice_no_replacement_props [OF a] and pv = choice_no_replacement_props [OF v]
  from pa(2) ra have la: "length (key_awards b) \<le> 2" by linarith
  from pv(2) rv have lv: "length (key_venues b) \<le> 3" by linarith
  from assms(4) have "1 \<le> int (length (VENUE_POOL cfg))" by (cases "VENUE_POOL cfg") simp_all
  with pv(2) rv have lv1: "1 \<le> length (key_venues b)" by linarith
  from randint_range [OF p] randint_range [OF c] pa(3) pv(3) pa(4) [OF assms(2)] pv(4) [OF assms(3)]
    la lv lv1
  show ?thesis by simp
qed



theorem mk_beneficiary_invariants_witness:
  "mk_beneficiary default_config 1 [3, 14, 1200, 1, 0, 1, 3, 4] =
     Inr (\<lparr>name = S ''Dr. Alex 1'', field = S ''NLP'', pubs = 22, citations = 1400,
            key_awards = [S ''ACM Best Paper Award''], key_venues = [S ''ACL'', S ''EMNLP'']\<rparr>, [])
   \<and> distinct (AWARD_POOL default_config) \<and> distinct (VENUE_POOL default_config)
   \<and> VENUE_POOL default_config \<noteq> []
   \<and> (8::int) \<le> 22 \<and> (22::int) \<le> 80 \<and> (200::int) \<le> 1400 \<and> (1400::int) \<le> 5000
   \<and> distinct [S ''ACM Best Paper Award'']
   \<and> set [S ''ACM Best Paper Award''] \<subseteq> set (AWARD_POOL default_config)
   \<and> distinct [S ''ACL'', S ''EMNLP'']
   \<and> set [S ''ACL'', S ''EMNLP''] \<subseteq> set (VENUE_POOL default_config)
   \<and> length [S ''ACM Best Paper Award''] \<le> 2
   \<and> 1 \<le> length [S ''ACL'', S ''EMNLP''] \<and> length [S ''ACL'', S ''EMNLP''] \<le> 3"
proof -
  have d: "distinct (AWARD_POOL default_config)" "distinct (VENUE_POOL default_config)"
    "VENUE_POOL default_config \<noteq> []"
    by (simp_all add: default_config_def S_def)
  from mk_beneficiary_invariants [OF mk_beneficiary_example d] mk_beneficiary_example d
  show ?thesis by (simp add: default_config_def)
qed

text \<open>
  C2, as the code has it. Sampling from an empty pool raises nothing: the requested
  number is capped at the size of the pool, and the empty selection is returned.
  A generated \<open>BeneficiaryFacts\<close> has at least one venue whenever the venue pool is
  not empty.
\<close>

theorem empty_pool_sampling:
  "(0 \<le> k \<longrightarrow> choice_no_replacement [] k g = Inr ([], g))
   \<and> (VENUE_POOL cfg \<noteq> [] \<longrightarrow> mk_beneficiary cfg i g0 = Inr (b, g') \<longrightarrow> key_venues b \<noteq> [])"
proof (intro conjI impI)
  assume "0 \<le> k"
  then show "choice_no_replacement [] k g = Inr ([], g)" by (rule choice_no_replacement_empty)
next
  assume ne: "VENUE_POOL cfg \<noteq> []" and mk: "mk_beneficiary cfg i g0 = Inr (b, g')"
  from mk_beneficiary_Inr [OF mk] obtain g5 kv g6 where
    kv: "randint 1 3 g5 = Inr (kv, g6)" and
    v: "choice_no_replacement (VENUE_POOL cfg) kv g6 = Inr (key_venues b, g')"
    by blast
  from ne have "1 \<le> int (length (VENUE_POOL cfg))" by (cases "VENUE_POOL cfg") simp_all
  with choice_no_replacement_props(2) [OF v] randint_range [OF kv]
  have "1 \<le> int (length (key_venues b))" by linarith
  then show "key_venues b \<noteq> []" by auto
qed

theorem empty_pool_sampling_witness:
  "(0::int) \<le> 2 \<and> choice_no_replacement [] 2 [7] = Inr ([], [7])
   \<and> VENUE_POOL default_config \<noteq> []
   \<and> mk_beneficiary default_config 1 [3, 14, 1200, 1, 0, 1, 3, 4] =
       Inr (\<lparr>name = S ''Dr. Alex 1'', field = S ''NLP'', pubs = 22, citations = 1400,
              key_awards = [S ''ACM Best Paper Award''], key_venues = [S ''ACL'', S ''EMNLP'']\<rparr>, [])
   \<and> [S ''ACL'', S ''EMNLP''] \<noteq> []"
  using empty_pool_sampling [of 2 "[7]" default_config 1 "[3, 14, 1200, 1, 0, 1, 3, 4]"
      "\<lparr>name = S ''Dr. Alex 1'', field = S ''NLP'', pubs = 22, citations = 1400,
         key_awards = [S ''ACM Best Paper Award''], key_venues = [S ''ACL'', S ''EMNLP'']\<rparr>" "[]"]
    mk_beneficiary_example
  by (simp add: default_config_def)

text \<open>
  C2 as stated fails: with an empty pool the sampling returns the empty selection, and
  with no venue configured \<open>mk_beneficiary\<close> returns facts without any venue.
\<close>

theorem empty_pool_sampling_counterexample:
  "choice_no_replacement [] 2 [7] = Inr ([], [7])
   \<and> map_sum id (\<lambda>(b, g). key_venues b)
        (mk_beneficiary (default_config\<lparr>VENUE_POOL := []\<rparr>) 1 [3, 14, 1200, 1, 0, 1, 3, 4]) = Inr []"
  by (simp add: mk_beneficiary_def bind_e_def choice_def randint_def randbelow_def next_draw_def
       choice_no_replacement_def sample_def default_config_def numeral_2_eq_2)


section \<open>Properties of the rough draft's gates\<close>

lemma set_item_last: "xs \<noteq> [] \<Longrightarrow> set_item xs (- 1) v = Inr (xs[length xs - 1 := v])"
  by (cases xs) (auto simp: set_item_def item_index_def nat_add_distrib)

lemma set_item_1: "2 \<le> length xs \<Longrightarrow> set_item xs 1 v = Inr (xs[1 := v])"
  by (auto simp: set_item_def item_index_def)

lemma add_item_1: "2 \<le> length xs \<Longrightarrow> add_item xs 1 s = Inr (xs[1 := xs ! 1 @ s])"
  by (auto simp: add_item_def get_item_def set_item_def item_index_def bind_e_def)

lemma maybe_wrong_count_cases:
  "\<exists>delta d g2. maybe_wrong_count t g = Inr (max 1 (t + d), g2) \<and> 5 \<le> delta \<and> delta \<le> 20
      \<and> (d = delta \<or> d = - delta)"
proof -
  obtain k g1 where k: "randbelow 16 g = (k, g1)" by (metis surj_pair)
  then have k16: "k < 16" using randbelow_less [of 16 g k g1] by simp
  obtain j g2 where j: "randbelow (Suc (Suc 0)) g1 = (j, g2)" by (metis surj_pair)
  then have "j < 2" using randbelow_less [of "Suc (Suc 0)" g1 j g2] by simp
  then have j01: "j = 0 \<or> j = 1" by auto
  have "maybe_wrong_count t g = Inr (max 1 (t + [- (5 + int k), 5 + int k] ! j), g2)"
    using k j by (simp add: maybe_wrong_count_def randint_def choice_def bind_e_def)
  with k16 j01 show ?thesis
    by (intro exI [of _ "5 + int k"] exI [of _ "[- (5 + int k), 5 + int k] ! j"] exI [of _ g2]) auto
qed

text \<open>
  C5, as the code has it. When the count-corruption gate fires, the claim appended to the
  evidence segment states \<open>max(1, pubs + d)\<close> with \<open>d\<close> one of \<open>delta\<close>, \<open>- delta\<close> and
  \<open>delta\<close> between 5 and 20; that value differs from the true count whenever the true
  count is at least 2, and differs from it by 5 to 20 whenever the true count is at least 6
  (so for every count of the configured range 8 to 80). When the gate does not fire, the
  true count is appended. (That the sign is uniform is a statement of probability,
  outside this model.)
\<close>

theorem wrong_count_appends:
  assumes "2 \<le> length chunks" and "random_random g = (u, g1)"
  shows "(u < P_WRONG_COUNT cfg \<longrightarrow>
           (\<exists>delta d g2. 5 \<le> delta \<and> delta \<le> 20 \<and> (d = delta \<or> d = - delta)
              \<and> wrong_count cfg b (chunks, g) =
                  Inr (chunks[1 := chunks ! 1 @ S '' They have around ''
                         @ str_int (max 1 (pubs b + d)) @ S '' publications.''], g2)
              \<and> (2 \<le> pubs b \<longrightarrow> max 1 (pubs b + d) \<noteq> pubs b)
              \<and> (6 \<le> pubs b \<longrightarrow> 5 \<le> \<bar>max 1 (pubs b + d) - pubs b\<bar>
                                \<and> \<bar>max 1 (pubs b + d) - pubs b\<bar> \<le> 20)))
       \<and> (\<not> u < P_WRONG_COUNT cfg \<longrightarrow>
           wrong_count cfg b (chunks, g) =
             Inr (chunks[1 := chunks ! 1 @ S '' They have around ''
                    @ str_int (pubs b) @ S '' publications.''], g1))"
proof (intro conjI impI)
  assume fire: "u < P_WRONG_COUNT cfg"
  from maybe_wrong_count_cases [of "pubs b" g1] obtain delta d g2 where
    m: "maybe_wrong_count (pubs b) g1 = Inr (max 1 (pubs b + d), g2)"
    and r: "5 \<le> delta" "delta \<le> 20" "d = delta \<or> d = - delta" by blast
  have "wrong_count cfg b (chunks, g) =
          Inr (chunks[1 := chunks ! 1 @ S '' They have around ''
                 @ str_int (max 1 (pubs b + d)) @ S '' publications.''], g2)"
    using assms fire m by (simp add: wrong_count_def bind_e_def add_item_1)
  moreover from r have "2 \<le> pubs b \<longrightarrow> max 1 (pubs b + d) \<noteq> pubs b" by auto
  moreover from r have "6 \<le> pubs b \<longrightarrow> 5 \<le> \<bar>max 1 (pubs b + d) - pubs b\<bar>
                                \<and> \<bar>max 1 (pubs b + d) - pubs b\<bar> \<le> 20" by auto
  ultimately show "\<exists>delta d g2. 5 \<le> delta \<and> delta \<le> 20 \<and> (d = delta \<or> d = - delta)
              \<and> wrong_count cfg b (chunks, g) =
                  Inr (chunks[1 := chunks ! 1 @ S '' They have around ''
                         @ str_int (max 1 (pubs b + d)) @ S '' publications.''], g2)
              \<and> (2 \<le> pubs b \<longrightarrow> max 1 (pubs b + d) \<noteq> pubs b)
              \<and> (6 \<le> pubs b \<longrightarrow> 5 \<le> \<bar>max 1 (pubs b + d) - pubs b\<bar>
                                \<and> \<bar>max 1 (pubs b + d) - pubs b\<bar> \<le> 20)"
    using r by blast
next
  assume "\<not> u < P_WRONG_COUNT cfg"
  then show "wrong_count cfg b (chunks, g) =
             Inr (chunks[1 := chunks ! 1 @ S '' They have around ''
                    @ str_int (pubs b) @ S '' publications.''], g1)"
    using assms by (simp add: wrong_count_def bind_e_def add_item_1)
qed


theorem wrong_count_appends_witness:
  "2 \<le> length [S ''a'', S ''b'', S ''c'']
   \<and> random_random [0, 3, 1] = (0, [3, 1]) \<and> 0 < P_WRONG_COUNT default_config
   \<and> (2::int) \<le> 22 \<and> (6::int) \<le> 22
   \<and> (\<exists>delta d g2. 5 \<le> delta \<and> delta \<le> 20 \<and> (d = delta \<or> d = - delta)
        \<and> wrong_count default_config
             \<lparr>name = S ''Dr. Alex 1'', field = S ''NLP'', pubs = 22, citations = 1400,
               key_awards = [], key_venues = [S ''ACL'']\<rparr>
             ([S ''a'', S ''b'', S ''c''], [0, 3, 1])
            = Inr ([S ''a'', S ''b'' @ S '' They have around '' @ str_int (max 1 (22 + d))
                      @ S '' publications.'', S ''c''], g2)
        \<and> max 1 (22 + d) \<noteq> 22
        \<and> 5 \<le> \<bar>max 1 (22 + d) - 22\<bar> \<and> \<bar>max 1 (22 + d) - 22\<bar> \<le> 20)
   \<and> random_random [9007199254740991] = (9007199254740991 / 9007199254740992, [])
   \<and> \<not> 9007199254740991 / 9007199254740992 < P_WRONG_COUNT default_config
   \<and> wrong_count default_config
        \<lparr>name = S ''Dr. Alex 1'', field = S ''NLP'', pubs = 22, citations = 1400,
          key_awards = [], key_venues = [S ''ACL'']\<rparr>
        ([S ''a'', S ''b'', S ''c''], [9007199254740991])
       = Inr ([S ''a'', S ''b'' @ S '' They have around '' @ str_int 22 @ S '' publications.'',
               S ''c''], [])"
proof -
  let ?b = "\<lparr>name = S ''Dr. Alex 1'', field = S ''NLP'', pubs = 22, citations = 1400,
               key_awards = [], key_venues = [S ''ACL'']\<rparr>"
  have len: "2 \<le> length [S ''a'', S ''b'', S ''c'']" by simp
  have r1: "random_random [0, 3, 1] = (0, [3, 1])" by (rule random_random_0)
  have r2: "random_random [9007199254740991] = (9007199254740991 / 9007199254740992, [])"
    by (rule random_random_max)
  have p: "0 < P_WRONG_COUNT default_config"
    "\<not> 9007199254740991 / 9007199254740992 < P_WRONG_COUNT default_config"
    by (simp_all add: default_config_def)
  from wrong_count_appends [OF len r1, of default_config ?b]
       wrong_count_appends [OF len r2, of default_config ?b] len r1 r2 p
  show ?thesis by simp
qed

text \<open>
  C5 as stated fails at the true count 1: the gate fires, \<open>delta\<close> is 5, the sign is
  negative, and the floor at 1 gives back the true count.
\<close>

theorem wrong_count_appends_counterexample:
  "fst (random_random [0, 0, 0]) < P_WRONG_COUNT default_config
   \<and> wrong_count default_config
        \<lparr>name = S ''Dr. Alex 1'', field = S ''NLP'', pubs = 1, citations = 1400,
          key_awards = [], key_venues = [S ''ACL'']\<rparr>
        ([S ''a'', S ''b'', S ''c''], [0, 0, 0])
       = Inr ([S ''a'', S ''b'' @ S '' They have around '' @ str_int 1 @ S '' publications.'',
               S ''c''], [])"
  by (simp add: wrong_count_def maybe_wrong_count_def randint_def randbelow_def next_draw_def
      choice_def bind_e_def add_item_def get_item_def set_item_def item_index_def
      random_random_0 default_config_def)

lemma weak_visa_mention_3:
  "\<exists>C g'. weak_visa_mention cfg v ([a, e, c], g) = Inr ([a, e, C], g')
      \<and> (C = WEAK_CLOSING \<or> C = closing_for v)"
  by (auto simp: weak_visa_mention_def set_item_last bind_e_def WEAK_CLOSING_def closing_for_def
      split: prod.splits)

lemma omit_key_fact_3:
  "\<exists>e' g'. omit_key_fact cfg b ([a, e, c], g) = Inr ([a, e', c], g')
      \<and> (e' = e \<or> e' = S ''They have many publications and are recognized in their field.''
            \<or> e' = S ''Their work is recognized at top venues.'')"
  by (auto simp: omit_key_fact_def set_item_1 bind_e_def split: prod.splits)

lemma wrong_count_3:
  "\<exists>n g'. wrong_count cfg b ([a, e, c], g) = Inr ([a, e @ count_claim n, c], g')"
proof -
  obtain u g1 where rr: "random_random g = (u, g1)" by (metis surj_pair)
  show ?thesis
  proof (cases "u < P_WRONG_COUNT cfg")
    case True
    from maybe_wrong_count_cases [of "pubs b" g1] obtain d g2 where
      "maybe_wrong_count (pubs b) g1 = Inr (max 1 (pubs b + d), g2)" by blast
    with True rr have "wrong_count cfg b ([a, e, c], g)
        = Inr ([a, e @ count_claim (max 1 (pubs b + d)), c], g2)"
      by (simp add: wrong_count_def bind_e_def add_item_1 count_claim_def)
    then show ?thesis by blast
  next
    case False
    with rr have "wrong_count cfg b ([a, e, c], g) = Inr ([a, e @ count_claim (pubs b), c], g1)"
      by (simp add: wrong_count_def bind_e_def add_item_1 count_claim_def)
    then show ?thesis by blast
  qed
qed

lemma hallucination_3:
  "\<exists>h g'. hallucination cfg ([a, e, c], g) = Inr ([a, e @ h, c], g')
      \<and> (h = [] \<or> (\<exists>f \<in> set FAKE_AWARDS. h = fake_claim f))"
proof -
  obtain u g1 where rr: "random_random g = (u, g1)" by (metis surj_pair)
  show ?thesis
  proof (cases "u < P_HALLUCINATION cfg")
    case False
    with rr have "hallucination cfg ([a, e, c], g) = Inr ([a, e @ [], c], g1)"
      by (simp add: hallucination_def)
    then show ?thesis by blast
  next
    case True
    have ne: "FAKE_AWARDS \<noteq> []" by (simp add: FAKE_AWARDS_def)
    obtain j g2 where j: "randbelow (length FAKE_AWARDS) g1 = (j, g2)" by (metis surj_pair)
    with ne have c: "choice FAKE_AWARDS g1 = Inr (FAKE_AWARDS ! j, g2)" by (simp add: choice_def)
    from ne j have "j < length FAKE_AWARDS" using randbelow_less [of "length FAKE_AWARDS" g1 j g2] by simp
    then have mem: "FAKE_AWARDS ! j \<in> set FAKE_AWARDS" by simp
    from True rr c have "hallucination cfg ([a, e, c], g) = Inr ([a, e @ fake_claim (FAKE_AWARDS ! j), c], g2)"
      by (simp add: hallucination_def bind_e_def add_item_1 fake_claim_def)
    with mem show ?thesis by blast
  qed
qed

lemma style_weak_cases:
  "\<exists>F g'. style_weak cfg (chunks, g) = Inr (F @ chunks, g') \<and> (F = [] \<or> F = [FILLER])"
  by (auto simp: style_weak_def split: prod.splits)

lemma noised_chunks_shape:
  "\<exists>F E C g'. noised_chunks cfg v b g = Inr (F @ [base_chunks b ! 0, E, C], g')
      \<and> (F = [] \<or> F = [FILLER]) \<and> is_evidence b E \<and> (C = WEAK_CLOSING \<or> C = closing_for v)"
proof -
  obtain a e c where bc: "base_chunks b = [a, e, c]" by (simp add: base_chunks_def Let_def)
  from weak_visa_mention_3 [of cfg v a e c g] obtain C g1 where
    s1: "weak_visa_mention cfg v ([a, e, c], g) = Inr ([a, e, C], g1)"
    and C: "C = WEAK_CLOSING \<or> C = closing_for v" by blast
  from omit_key_fact_3 [of cfg b a e C g1] obtain e' g2 where
    s2: "omit_key_fact cfg b ([a, e, C], g1) = Inr ([a, e', C], g2)"
    and e': "e' = e \<or> e' = S ''They have many publications and are recognized in their field.''
            \<or> e' = S ''Their work is recognized at top venues.''" by blast
  from wrong_count_3 [of cfg b a e' C g2] obtain n g3 where
    s3: "wrong_count cfg b ([a, e', C], g2) = Inr ([a, e' @ count_claim n, C], g3)" by blast
  from hallucination_3 [of cfg a "e' @ count_claim n" C g3] obtain h g4 where
    s4: "hallucination cfg ([a, e' @ count_claim n, C], g3) = Inr ([a, e' @ count_claim n @ h, C], g4)"
    and h: "h = [] \<or> (\<exists>f \<in> set FAKE_AWARDS. h = fake_claim f)" by auto
  from style_weak_cases [of cfg "[a, e' @ count_claim n @ h, C]" g4] obtain F g5 where
    s5: "style_weak cfg ([a, e' @ count_claim n @ h, C], g4) = Inr (F @ [a, e' @ count_claim n @ h, C], g5)"
    and F: "F = [] \<or> F = [FILLER]" by blast
  have "noised_chunks cfg v b g = Inr (F @ [a, e' @ count_claim n @ h, C], g5)"
    by (simp add: noised_chunks_def bc s1 s2 s3 s4 s5 bind_e_def)
  moreover have "is_evidence b (e' @ count_claim n @ h)"
    unfolding is_evidence_def using e' h bc by (intro exI [of _ e'] exI [of _ n] exI [of _ h]) auto
  ultimately show ?thesis using F C bc by (intro exI [of _ F] exI [of _ "e' @ count_claim n @ h"] exI [of _ C] exI [of _ g5]) simp
qed

lemma section_miss_cases:
  "\<exists>chunks' g'. section_miss cfg (chunks, g) = Inr (chunks', g')
      \<and> (chunks' = chunks \<or> (2 < length chunks \<and> chunks' = tl chunks) \<or> chunks' = butlast chunks)"
  by (auto simp: section_miss_def split: prod.splits)

lemma visa_misname_cases:
  assumes "chunks \<noteq> []" and "filter (\<lambda>w. w \<noteq> v) (VISA_TYPES cfg) \<noteq> []"
  shows "\<exists>chunks' g'. visa_misname cfg v (chunks, g) = Inr (chunks', g')
      \<and> (chunks' = chunks
          \<or> (\<exists>w \<in> set (VISA_TYPES cfg). w \<noteq> v \<and> chunks' = chunks[length chunks - 1 := closing_for w]))"
proof -
  obtain u g1 where rr: "random_random g = (u, g1)" by (metis surj_pair)
  let ?ws = "filter (\<lambda>w. w \<noteq> v) (VISA_TYPES cfg)"
  show ?thesis
  proof (cases "u < 5764607523034235 / 72057594037927936")
    case False
    with rr show ?thesis by (simp add: visa_misname_def)
  next
    case True
    obtain j g2 where j: "randbelow (length ?ws) g1 = (j, g2)" by (metis surj_pair)
    with assms(2) have c: "choice ?ws g1 = Inr (?ws ! j, g2)" by (simp add: choice_def)
    from assms(2) j have "j < length ?ws" using randbelow_less [of "length ?ws" g1 j g2] by simp
    then have "?ws ! j \<in> set ?ws" by (rule nth_mem)
    then have mem: "?ws ! j \<in> set (VISA_TYPES cfg)" "?ws ! j \<noteq> v" by simp_all
    from True rr c assms(1) have "visa_misname cfg v (chunks, g) =
        Inr (chunks[length chunks - 1 := closing_for (?ws ! j)], g2)"
      by (simp add: visa_misname_def bind_e_def set_item_last closing_for_def)
    with mem show ?thesis by blast
  qed
qed

lemma default_other_visa: "filter (\<lambda>w. w \<noteq> v) (VISA_TYPES default_config) \<noteq> []"
  by (auto simp: default_config_def S_def)


lemma rough_chunks_total:
  assumes "filter (\<lambda>w. w \<noteq> v) (VISA_TYPES cfg) \<noteq> []"
  shows "\<exists>chunks g'. rough_chunks cfg v b g = Inr (chunks, g') \<and> chunks \<noteq> []"
proof -
  from noised_chunks_shape [of cfg v b g] obtain F E C g5 where
    n: "noised_chunks cfg v b g = Inr (F @ [base_chunks b ! 0, E, C], g5)" by blast
  let ?c5 = "F @ [base_chunks b ! 0, E, C]"
  from section_miss_cases [of cfg ?c5 g5] obtain c6 g6 where
    s: "section_miss cfg (?c5, g5) = Inr (c6, g6)"
    and c6: "c6 = ?c5 \<or> (2 < length ?c5 \<and> c6 = tl ?c5) \<or> c6 = butlast ?c5" by blast
  from c6 have ne: "c6 \<noteq> []" by (cases F) (auto simp: butlast_append)
  from visa_misname_cases [OF ne assms, of g6] obtain c7 g7 where
    m: "visa_misname cfg v (c6, g6) = Inr (c7, g7)"
    and c7: "c7 = c6 \<or> (\<exists>w \<in> set (VISA_TYPES cfg). w \<noteq> v \<and> c7 = c6[length c6 - 1 := closing_for w])"
    by blast
  from c7 have "length c7 = length c6" by auto
  with ne have "c7 \<noteq> []" by auto
  moreover have "rough_chunks cfg v b g = Inr (c7, g7)"
    by (simp add: rough_chunks_def n s m bind_e_def)
  ultimately show ?thesis by blast
qed

lemma mk_rough_draft_total:
  assumes "filter (\<lambda>w. w \<noteq> v) (VISA_TYPES cfg) \<noteq> []"
  shows "\<exists>t g'. mk_rough_draft ucd cfg v r b g = Inr (t, g')"
proof -
  from rough_chunks_total [OF assms, of b g] obtain chunks g1 where
    "rough_chunks cfg v b g = Inr (chunks, g1)" by blast
  then show ?thesis
    by (simp add: mk_rough_draft_def bind_e_def fill_def split: prod.splits)
qed

text \<open>
  C4 fails on the code. With the style gate fired, the filler sentence is the first
  segment; the section-omission gate fires, its coin lands on the branch whose comment is
  "lose intro", and \<open>chunks.pop(0)\<close> removes the filler: the intro segment stays, and the
  draft keeps all three of its sections.
\<close>

theorem section_miss_removes_filler:
  "noised_chunks default_config (S ''EB-1A'')
      \<lparr>name = S ''Dr. Alex 1'', field = S ''NLP'', pubs = 22, citations = 1400,
        key_awards = [S ''ACM Best Paper Award''], key_venues = [S ''ACL'', S ''EMNLP'']\<rparr>
      [9007199254740991, 9007199254740991, 9007199254740991, 9007199254740991, 0, 0, 0, 9007199254740991]
    = Inr ([S ''I am pleased to write this letter. It is my pleasure to write this letter.'',
            S ''I am writing to recommend Dr. Alex 1. Dr. Alex 1 is a talented researcher in NLP.'',
            S ''They have many publications and their work is known at venues like ACL, EMNLP. They have around 22 publications.'',
            S ''I believe they are qualified for the EB-1A visa.''], [0, 0, 9007199254740991])
   \<and> fst (random_random [0, 0, 9007199254740991]) < P_SECTION_MISS default_config
   \<and> section_miss default_config
        ([S ''I am pleased to write this letter. It is my pleasure to write this letter.'',
          S ''I am writing to recommend Dr. Alex 1. Dr. Alex 1 is a talented researcher in NLP.'',
          S ''They have many publications and their work is known at venues like ACL, EMNLP. They have around 22 publications.'',
          S ''I believe they are qualified for the EB-1A visa.''], [0, 0, 9007199254740991])
    = Inr ([S ''I am writing to recommend Dr. Alex 1. Dr. Alex 1 is a talented researcher in NLP.'',
            S ''They have many publications and their work is known at venues like ACL, EMNLP. They have around 22 publications.'',
            S ''I believe they are qualified for the EB-1A visa.''], [9007199254740991])"
  by (simp add: noised_chunks_def weak_visa_mention_def omit_key_fact_def wrong_count_def
      hallucination_def style_weak_def section_miss_def base_chunks_def Let_def bind_e_def
      default_config_def set_item_def get_item_def add_item_def item_index_def FILLER_def
      random_random_0 random_random_max S_def str_int_def digits.simps)


end
